theory Spec2Isabelle
  imports Main
begin

section \<open>The retransmission queue of CRUX (transmit_queue.hpp)\<close>

text \<open>
  The class \<open>transmit_queue<Index>\<close> keeps the datagrams that were sent and not yet
  acknowledged in an ordered map, retries the one with the smallest index on a timer,
  and completes each entry through its handler.

  The callbacks of the source (\<open>iteration_step\<close>, \<open>iteration_handler\<close>) are
  caller-supplied closures. They are modelled by identifiers, and every call the queue
  makes to a collaborator (a step, a handler, the timer, the io_service, the shutdown
  token) is appended to a trace, in the order of the source statements. A step receives
  a continuation; the continuation is kept in the list \<open>pending\<close> until the
  environment calls it: a step starts an asynchronous send and returns before its
  continuation is called. The io_service is the FIFO list \<open>ios\<close> of posted closures.
  A handler is always the last statement of the code that calls it, so whatever a
  handler does to the queue is an operation that follows the one that called it.
\<close>

subsection \<open>Data\<close>

type_synonym step_id = nat
type_synonym handler_id = nat
type_synonym duration_type = nat

text \<open>
  \<open>boost::system::error_code\<close>: the default-constructed code is \<open>success\<close> and is the
  only one that converts to false; \<open>transport_error n\<close> stands for any other code a step
  may report.
\<close>

datatype error_code = success | operation_aborted | already_started | transport_error nat

text \<open>\<open>struct entry_type\<close>.\<close>

record entry_type =
  buffer_size :: nat
  period :: duration_type
  step :: step_id
  handler :: handler_id

text \<open>
  Modelled from the spec: \<open>detail::timer\<close> (timer.hpp is not part of the sources). The
  spec gives it \<open>start()\<close>, \<open>stop()\<close>, \<open>set_period(duration)\<close> and a tick callback that is
  invoked while the timer is started.
\<close>

record timer_type =
  running :: bool
  timer_period :: duration_type

text \<open>Modelled from the spec: \<open>timer::start()\<close>, after which the timer ticks.\<close>

definition timer_start :: "timer_type \<Rightarrow> timer_type" where
  "timer_start t = t\<lparr>running := True\<rparr>"

text \<open>Modelled from the spec: \<open>timer::stop()\<close>, after which the timer does not tick.\<close>

definition timer_stop :: "timer_type \<Rightarrow> timer_type" where
  "timer_stop t = t\<lparr>running := False\<rparr>"

text \<open>Modelled from the spec: \<open>timer::set_period(duration)\<close>.\<close>

definition timer_set_period :: "duration_type \<Rightarrow> timer_type \<Rightarrow> timer_type" where
  "timer_set_period d t = t\<lparr>timer_period := d\<rparr>"

text \<open>
  A closure given to \<open>ios.post\<close>: both closures of the source call one handler with a
  fixed error code and size.
\<close>

datatype task = Handler_task handler_id error_code nat

text \<open>
  The lambda of \<open>start_step\<close>. It captures the entry (a copy of the shared pointer; the
  fields of an entry are never assigned after \<open>push\<close>) and \<open>shutdown_guard\<close>, a weak
  pointer: \<open>guard_bound\<close> says whether \<open>shutdown_indicator\<close> held the token when the
  weak pointer was taken.
\<close>

record continuation =
  captured_entry :: entry_type
  guard_bound :: bool

datatype event =
    Step_invoked step_id
  | Handler_invoked handler_id error_code nat
  | Timer_stop
  | Timer_set_period duration_type
  | Timer_start
  | Token_reset
  | Posted task

text \<open>
  The members of the class, with the io_service it refers to, the continuations handed
  to steps and not yet called, and the trace. \<open>entries\<close> is the \<open>std::map\<close> as the list
  of its pairs in ascending key order; \<open>shutdown_indicator\<close> is True while the shared
  pointer holds the token.
\<close>

record 'i transmit_queue =
  entries :: "('i \<times> entry_type) list"
  timer :: timer_type
  shutdown_indicator :: bool
  ios :: "task list"
  pending :: "continuation list"
  trace :: "event list"

subsection \<open>The ordered map\<close>

text \<open>The representation invariant of \<open>std::map\<close>: keys strictly ascending.\<close>

definition ordered_keys :: "('i::linorder \<times> 'v) list \<Rightarrow> bool" where
  "ordered_keys xs = sorted_wrt (<) (map fst xs)"

text \<open>\<open>entries.find(index)\<close>.\<close>

definition find_entry :: "('i \<times> 'v) list \<Rightarrow> 'i \<Rightarrow> 'v option" where
  "find_entry xs k = map_of xs k"

fun place :: "'i::linorder \<Rightarrow> 'v \<Rightarrow> ('i \<times> 'v) list \<Rightarrow> ('i \<times> 'v) list" where
  "place k v [] = [(k, v)]"
| "place k v ((k', v') # xs) =
     (if k < k' then (k, v) # (k', v') # xs else (k', v') # place k v xs)"

text \<open>
  \<open>entries.insert(std::make_pair(index, ...))\<close>: an existing key keeps its value and the
  flag is false.
\<close>

definition map_insert ::
  "'i::linorder \<Rightarrow> 'v \<Rightarrow> ('i \<times> 'v) list \<Rightarrow> ('i \<times> 'v) list \<times> bool" where
  "map_insert k v xs =
     (case find_entry xs k of Some old \<Rightarrow> (xs, False) | None \<Rightarrow> (place k v xs, True))"

text \<open>\<open>entries.erase(entry_i)\<close> for the iterator at key \<open>k\<close>.\<close>

definition erase :: "'i \<Rightarrow> ('i \<times> 'v) list \<Rightarrow> ('i \<times> 'v) list" where
  "erase k xs = filter (\<lambda>p. fst p \<noteq> k) xs"

text \<open>\<open>entry_i == entries.begin()\<close> for the iterator at key \<open>k\<close>.\<close>

definition is_begin :: "'i \<Rightarrow> ('i \<times> 'v) list \<Rightarrow> bool" where
  "is_begin k xs = (case xs of [] \<Rightarrow> False | p # rest \<Rightarrow> fst p = k)"

subsection \<open>Calls to collaborators\<close>

definition emit :: "event \<Rightarrow> 'i transmit_queue \<Rightarrow> 'i transmit_queue" where
  "emit e q = q\<lparr>trace := trace q @ [e]\<rparr>"

definition invoke_handler ::
  "handler_id \<Rightarrow> error_code \<Rightarrow> nat \<Rightarrow> 'i transmit_queue \<Rightarrow> 'i transmit_queue" where
  "invoke_handler h err n q = emit (Handler_invoked h err n) q"

definition post :: "task \<Rightarrow> 'i transmit_queue \<Rightarrow> 'i transmit_queue" where
  "post t q = emit (Posted t) (q\<lparr>ios := ios q @ [t]\<rparr>)"

definition stop_timer :: "'i transmit_queue \<Rightarrow> 'i transmit_queue" where
  "stop_timer q = emit Timer_stop (q\<lparr>timer := timer_stop (timer q)\<rparr>)"

definition set_timer_period :: "duration_type \<Rightarrow> 'i transmit_queue \<Rightarrow> 'i transmit_queue" where
  "set_timer_period d q = emit (Timer_set_period d) (q\<lparr>timer := timer_set_period d (timer q)\<rparr>)"

definition start_timer :: "'i transmit_queue \<Rightarrow> 'i transmit_queue" where
  "start_timer q = emit Timer_start (q\<lparr>timer := timer_start (timer q)\<rparr>)"

subsection \<open>The member functions\<close>

text \<open>The constructor.\<close>

definition new_queue :: "'i transmit_queue" where
  "new_queue = \<lparr>entries = [], timer = \<lparr>running = False, timer_period = 0\<rparr>,
     shutdown_indicator = True, ios = [], pending = [], trace = []\<rparr>"

definition empty_q :: "'i transmit_queue \<Rightarrow> bool" where
  "empty_q q = (entries q = [])"

definition size_q :: "'i transmit_queue \<Rightarrow> nat" where
  "size_q q = length (entries q)"

text \<open>
  \<open>start_step(entry_i)\<close>: the step of the entry is called with the lambda, which from
  then on is pending.
\<close>

definition start_step :: "'i \<times> entry_type \<Rightarrow> 'i transmit_queue \<Rightarrow> 'i transmit_queue" where
  "start_step entry_i q =
     (let entry = snd entry_i;
          shutdown_guard = shutdown_indicator q
      in (emit (Step_invoked (step entry)) q)
           \<lparr>pending := pending q @ [\<lparr>captured_entry = entry, guard_bound = shutdown_guard\<rparr>]\<rparr>)"

text \<open>
  The body of the lambda, called with \<open>(error, bytes_transferred)\<close>.
  \<open>shutdown_guard.lock()\<close> succeeds when the weak pointer was bound and the token has
  not been reset since.
\<close>

definition continuation_body ::
  "continuation \<Rightarrow> error_code \<Rightarrow> nat \<Rightarrow> 'i transmit_queue \<Rightarrow> 'i transmit_queue" where
  "continuation_body c error bytes_transferred q =
     (let entry = captured_entry c;
          locked = (guard_bound c \<and> shutdown_indicator q)
      in if \<not> locked \<or> error \<noteq> success
         then invoke_handler (handler entry) error bytes_transferred q
         else start_timer (set_timer_period (period entry) q))"

definition on_timer_tick :: "'i transmit_queue \<Rightarrow> 'i transmit_queue" where
  "on_timer_tick q =
     (case entries q of [] \<Rightarrow> q | entry_i # rest \<Rightarrow> start_step entry_i q)"

definition apply_ack :: "'i \<Rightarrow> 'i transmit_queue \<Rightarrow> 'i transmit_queue" where
  "apply_ack index q =
     (case find_entry (entries q) index of
        None \<Rightarrow> q
      | Some entry \<Rightarrow>
          (let is_active = is_begin index (entries q);
               q1 = q\<lparr>entries := erase index (entries q)\<rparr>;
               q2 = (if is_active
                     then (let q' = stop_timer q1
                           in case entries q' of [] \<Rightarrow> q' | entry_i # rest \<Rightarrow> start_step entry_i q')
                     else q1)
           in invoke_handler (handler entry) success (buffer_size entry) q2))"

text \<open>
  \<open>shutdown()\<close>. The moved-from map is taken to be empty, as the spec says (the table
  is detached).
\<close>

definition shutdown :: "'i transmit_queue \<Rightarrow> 'i transmit_queue" where
  "shutdown q =
     (let q1 = emit Token_reset (q\<lparr>shutdown_indicator := False\<rparr>);
          q2 = stop_timer q1;
          moved_entries = entries q2;
          q3 = q2\<lparr>entries := []\<rparr>
      in foldl (\<lambda>s entry_pair.
                  post (Handler_task (handler (snd entry_pair)) operation_aborted
                          (buffer_size (snd entry_pair))) s)
           q3 moved_entries)"

text \<open>
  \<open>push(index, buffer_size, step, handler)\<close>. \<open>constant::initial_roundtrip_time\<close> comes
  from constants.hpp, which is not part of the sources: it is the first parameter. The
  four assignments fill in the entry that was just inserted before anything else reads
  it, so the entry is inserted with its fields.
\<close>

definition push ::
  "duration_type \<Rightarrow> 'i::linorder \<Rightarrow> nat \<Rightarrow> step_id \<Rightarrow> handler_id \<Rightarrow>
   'i transmit_queue \<Rightarrow> 'i transmit_queue" where
  "push initial_roundtrip_time index bsize stp hnd q =
     (let was_empty = (entries q = []);
          entry = \<lparr>buffer_size = bsize, period = initial_roundtrip_time,
                    step = stp, handler = hnd\<rparr>;
          insert_result = map_insert index entry (entries q)
      in if \<not> snd insert_result
         then post (Handler_task hnd already_started 0) q
         else (let q1 = q\<lparr>entries := fst insert_result\<rparr>
               in if was_empty then start_step (index, entry) q1 else q1))"

subsection \<open>The environment\<close>

text \<open>
  What can happen to a queue: a call of a public member, a step calling the continuation
  it was given (the \<open>k\<close>-th pending one, once), the timer calling its tick callback
  (only while started), and the io_service running the closure posted first.
\<close>

datatype 'i operation =
    Push 'i nat step_id handler_id
  | Apply_ack 'i
  | Shutdown
  | Step_done nat error_code nat
  | Timer_tick
  | Ios_run

definition step_done :: "nat \<Rightarrow> error_code \<Rightarrow> nat \<Rightarrow> 'i transmit_queue \<Rightarrow> 'i transmit_queue" where
  "step_done k error bytes_transferred q =
     (if k < length (pending q)
      then continuation_body (pending q ! k) error bytes_transferred
             (q\<lparr>pending := take k (pending q) @ drop (Suc k) (pending q)\<rparr>)
      else q)"

text \<open>
  Modelled from the spec: the timer invokes its tick callback, \<open>on_timer_tick\<close>,
  periodically while it is started, and not otherwise.
\<close>

definition timer_tick :: "'i transmit_queue \<Rightarrow> 'i transmit_queue" where
  "timer_tick q = (if running (timer q) then on_timer_tick q else q)"

definition ios_run :: "'i transmit_queue \<Rightarrow> 'i transmit_queue" where
  "ios_run q =
     (case ios q of
        [] \<Rightarrow> q
      | Handler_task h err n # rest \<Rightarrow> invoke_handler h err n (q\<lparr>ios := rest\<rparr>))"

fun exec :: "duration_type \<Rightarrow> 'i::linorder operation \<Rightarrow> 'i transmit_queue \<Rightarrow> 'i transmit_queue" where
  "exec irt (Push index bsize stp hnd) q = push irt index bsize stp hnd q"
| "exec irt (Apply_ack index) q = apply_ack index q"
| "exec irt Shutdown q = shutdown q"
| "exec irt (Step_done k error bytes) q = step_done k error bytes q"
| "exec irt Timer_tick q = timer_tick q"
| "exec irt Ios_run q = ios_run q"

definition run :: "duration_type \<Rightarrow> 'i::linorder operation list \<Rightarrow> 'i transmit_queue \<Rightarrow> 'i transmit_queue" where
  "run irt ops q = foldl (\<lambda>s op. exec irt op s) q ops"

fun is_push :: "'i operation \<Rightarrow> bool" where
  "is_push (Push index bsize stp hnd) = True"
| "is_push other = False"

text \<open>How often a handler was called, as the trace records it.\<close>

definition invocations :: "handler_id \<Rightarrow> event list \<Rightarrow> nat" where
  "invocations h evs =
     length (filter (\<lambda>e. case e of Handler_invoked h' err n \<Rightarrow> h' = h | other \<Rightarrow> False) evs)"

text \<open>
  The operations that start the timer (\<open>timer.start()\<close> is called only in the lambda of
  \<open>start_step\<close>, on the branch where the lock succeeds and no error is reported) and the
  operations that stop it (\<open>timer.stop()\<close> is called in \<open>apply_ack\<close> for the first entry
  of the table and in \<open>shutdown\<close>).
\<close>

definition starts_timer :: "'i operation \<Rightarrow> 'i transmit_queue \<Rightarrow> bool" where
  "starts_timer op q =
     (case op of
        Step_done k error bytes \<Rightarrow>
          k < length (pending q) \<and> guard_bound (pending q ! k) \<and> shutdown_indicator q \<and>
          error = success
      | other \<Rightarrow> False)"

definition stops_timer :: "'i operation \<Rightarrow> 'i transmit_queue \<Rightarrow> bool" where
  "stops_timer op q =
     (case op of
        Shutdown \<Rightarrow> True
      | Apply_ack index \<Rightarrow> find_entry (entries q) index \<noteq> None \<and> is_begin index (entries q)
      | other \<Rightarrow> False)"

text \<open>The call a posted closure makes when the io_service runs it.\<close>

definition task_call :: "task \<Rightarrow> event" where
  "task_call t = (case t of Handler_task h err n \<Rightarrow> Handler_invoked h err n)"

section \<open>Properties\<close>

subsection \<open>The ordered map\<close>


lemma keys_place: "fst ` set (place k v xs) = insert k (fst ` set xs)"
  by (induction k v xs rule: place.induct) (simp_all add: insert_commute)

lemma ordered_place:
  "ordered_keys xs \<Longrightarrow> find_entry xs k = None \<Longrightarrow> ordered_keys (place k v xs)"
proof (induction xs)
  case Nil
  then show ?case by (simp add: ordered_keys_def)
next
  case (Cons p xs)
  obtain k' v' where p: "p = (k', v')" by (cases p)
  from Cons.prems have ne: "k \<noteq> k'" and none: "find_entry xs k = None"
    by (auto simp: find_entry_def p split: if_splits)
  from Cons.prems have tl: "ordered_keys xs" and hd: "\<forall>j \<in> fst ` set xs. k' < j"
    by (auto simp: ordered_keys_def p)
  show ?case
  proof (cases "k < k'")
    case True
    with Cons.prems show ?thesis by (auto simp: ordered_keys_def p)
  next
    case False
    with ne have lt: "k' < k" by simp
    have "ordered_keys (place k v xs)" using Cons.IH tl none by simp
    moreover have "\<forall>j \<in> fst ` set (place k v xs). k' < j"
      using hd lt by (simp add: keys_place)
    ultimately show ?thesis using False by (simp add: ordered_keys_def p)
  qed
qed

lemma ordered_erase: "ordered_keys xs \<Longrightarrow> ordered_keys (erase k xs)"
  by (simp add: ordered_keys_def erase_def sorted_wrt_map sorted_wrt_filter)

lemma find_erase_same: "find_entry (erase k xs) k = None"
  by (induction xs) (auto simp: find_entry_def erase_def)

lemma find_erase_other: "k' \<noteq> k \<Longrightarrow> find_entry (erase k xs) k' = find_entry xs k'"
  by (induction xs) (auto simp: find_entry_def erase_def)

lemma find_entry_keys: "find_entry xs k = Some v \<Longrightarrow> k \<in> fst ` set xs"
  by (auto simp: find_entry_def dest: map_of_SomeD intro: rev_image_eqI)

lemma is_begin_least:
  assumes "ordered_keys xs" and "find_entry xs k = Some v"
  shows "is_begin k xs \<longleftrightarrow> (\<forall>j \<in> fst ` set xs. k \<le> j)"
proof (cases xs)
  case Nil
  with assms show ?thesis by (simp add: find_entry_def)
next
  case (Cons p rest)
  from assms(1) Cons have above: "\<forall>j \<in> fst ` set rest. fst p < j"
    by (auto simp: ordered_keys_def)
  have mem: "k \<in> fst ` set xs" using assms(2) by (rule find_entry_keys)
  show ?thesis
  proof
    assume "is_begin k xs"
    then have "fst p = k" by (simp add: is_begin_def Cons)
    with above show "\<forall>j \<in> fst ` set xs. k \<le> j" by (auto simp: Cons)
  next
    assume least: "\<forall>j \<in> fst ` set xs. k \<le> j"
    then have "k \<le> fst p" by (simp add: Cons)
    moreover have "fst p \<le> k" using mem above by (auto simp: Cons)
    ultimately show "is_begin k xs" by (simp add: is_begin_def Cons)
  qed
qed

lemma post_all:
  "foldl (\<lambda>s p. post (f p) s) q xs =
     q\<lparr>ios := ios q @ map f xs, trace := trace q @ map (\<lambda>p. Posted (f p)) xs\<rparr>"
  by (induction xs arbitrary: q) (simp_all add: post_def emit_def)

lemma shutdown_eq:
  "shutdown q =
     q\<lparr>entries := [], timer := timer_stop (timer q), shutdown_indicator := False,
       ios := ios q @ map (\<lambda>p. Handler_task (handler (snd p)) operation_aborted (buffer_size (snd p))) (entries q),
       trace := trace q @ [Token_reset, Timer_stop] @
                map (\<lambda>p. Posted (Handler_task (handler (snd p)) operation_aborted (buffer_size (snd p)))) (entries q)\<rparr>"
  by (simp add: shutdown_def Let_def post_all) (simp add: stop_timer_def emit_def)

subsection \<open>Closed forms of the member functions\<close>

lemma start_step_fields:
  "entries (start_step p q) = entries q"
  "timer (start_step p q) = timer q"
  "shutdown_indicator (start_step p q) = shutdown_indicator q"
  "ios (start_step p q) = ios q"
  "pending (start_step p q) =
     pending q @ [\<lparr>captured_entry = snd p, guard_bound = shutdown_indicator q\<rparr>]"
  "trace (start_step p q) = trace q @ [Step_invoked (step (snd p))]"
  by (simp_all add: start_step_def emit_def Let_def)

lemma apply_ack_present:
  "find_entry (entries q) index = Some entry \<Longrightarrow>
   apply_ack index q =
     (if is_begin index (entries q)
      then (case erase index (entries q) of
              [] \<Rightarrow> q\<lparr>entries := [], timer := timer_stop (timer q),
                      trace := trace q @ [Timer_stop,
                        Handler_invoked (handler entry) success (buffer_size entry)]\<rparr>
            | new_head # rest \<Rightarrow>
                q\<lparr>entries := new_head # rest, timer := timer_stop (timer q),
                  pending := pending q @
                    [\<lparr>captured_entry = snd new_head, guard_bound = shutdown_indicator q\<rparr>],
                  trace := trace q @ [Timer_stop, Step_invoked (step (snd new_head)),
                    Handler_invoked (handler entry) success (buffer_size entry)]\<rparr>)
      else q\<lparr>entries := erase index (entries q),
             trace := trace q @
               [Handler_invoked (handler entry) success (buffer_size entry)]\<rparr>)"
  by (simp add: apply_ack_def Let_def invoke_handler_def stop_timer_def start_step_def emit_def
      split: list.splits)

lemma push_fresh:
  "find_entry (entries q) index = None \<Longrightarrow>
   push irt index bsize stp hnd q =
     (if entries q = []
      then q\<lparr>entries := [(index, \<lparr>buffer_size = bsize, period = irt, step = stp, handler = hnd\<rparr>)],
             pending := pending q @
               [\<lparr>captured_entry = \<lparr>buffer_size = bsize, period = irt, step = stp, handler = hnd\<rparr>,
                 guard_bound = shutdown_indicator q\<rparr>],
             trace := trace q @ [Step_invoked stp]\<rparr>
      else q\<lparr>entries := place index \<lparr>buffer_size = bsize, period = irt, step = stp, handler = hnd\<rparr>
                          (entries q)\<rparr>)"
  by (simp add: push_def map_insert_def Let_def start_step_def emit_def)

lemma push_timer_token:
  "timer (push irt index bsize stp hnd q) = timer q"
  "shutdown_indicator (push irt index bsize stp hnd q) = shutdown_indicator q"
  by (simp_all add: push_def map_insert_def Let_def post_def emit_def start_step_def
      split: option.splits)

lemma apply_ack_token:
  "shutdown_indicator (apply_ack index q) = shutdown_indicator q"
proof (cases "find_entry (entries q) index")
  case None
  then show ?thesis by (simp add: apply_ack_def)
next
  case (Some entry)
  then show ?thesis by (simp add: apply_ack_present split: list.splits)
qed

lemma apply_ack_running:
  "running (timer (apply_ack index q)) =
     (running (timer q) \<and> \<not> (find_entry (entries q) index \<noteq> None \<and> is_begin index (entries q)))"
proof (cases "find_entry (entries q) index")
  case None
  then show ?thesis by (simp add: apply_ack_def)
next
  case (Some entry)
  then show ?thesis by (simp add: apply_ack_present timer_stop_def split: list.splits)
qed

lemma apply_ack_empty: "entries q = [] \<Longrightarrow> apply_ack index q = q"
  by (simp add: apply_ack_def find_entry_def)

lemma step_done_fields:
  "entries (step_done k error bytes q) = entries q"
  "shutdown_indicator (step_done k error bytes q) = shutdown_indicator q"
  "ios (step_done k error bytes q) = ios q"
  by (simp_all add: step_done_def continuation_body_def invoke_handler_def start_timer_def
      set_timer_period_def emit_def Let_def)

lemma step_done_running:
  "running (timer (step_done k error bytes q)) =
     (k < length (pending q) \<and> guard_bound (pending q ! k) \<and> shutdown_indicator q \<and>
        error = success \<or> running (timer q))"
  by (auto simp: step_done_def continuation_body_def invoke_handler_def start_timer_def
      set_timer_period_def emit_def Let_def timer_start_def timer_set_period_def)

lemma timer_tick_fields:
  "entries (timer_tick q) = entries q"
  "timer (timer_tick q) = timer q"
  "shutdown_indicator (timer_tick q) = shutdown_indicator q"
  "ios (timer_tick q) = ios q"
  by (simp_all add: timer_tick_def on_timer_tick_def start_step_fields split: list.splits)

lemma ios_run_fields:
  "entries (ios_run q) = entries q"
  "timer (ios_run q) = timer q"
  "shutdown_indicator (ios_run q) = shutdown_indicator q"
  "pending (ios_run q) = pending q"
  by (simp_all add: ios_run_def invoke_handler_def emit_def split: list.splits task.splits)

lemma exec_running:
  "running (timer (exec irt op q)) =
     (starts_timer op q \<or> running (timer q) \<and> \<not> stops_timer op q)"
  by (cases op)
     (simp_all add: starts_timer_def stops_timer_def push_timer_token apply_ack_running
        shutdown_eq timer_stop_def step_done_running timer_tick_fields ios_run_fields)

lemma exec_token:
  "shutdown_indicator (exec irt op q) = (shutdown_indicator q \<and> op \<noteq> Shutdown)"
  by (cases op)
     (simp_all add: push_timer_token apply_ack_token shutdown_eq step_done_fields
        timer_tick_fields ios_run_fields)

lemma exec_keeps_empty:
  "entries q = [] \<Longrightarrow> \<not> is_push op \<Longrightarrow> entries (exec irt op q) = []"
  by (cases op)
     (simp_all add: apply_ack_empty shutdown_eq step_done_fields timer_tick_fields ios_run_fields)

lemma run_Nil: "run irt [] q = q"
  by (simp add: run_def)

lemma run_Cons: "run irt (op # ops) q = run irt ops (exec irt op q)"
  by (simp add: run_def)

lemma run_snoc: "run irt (ops @ [op]) q = exec irt op (run irt ops q)"
  by (simp add: run_def)

lemma run_token_stays_reset:
  "\<not> shutdown_indicator q \<Longrightarrow> \<not> shutdown_indicator (run irt ops q)"
  by (induction ops rule: rev_induct) (simp_all add: run_Nil run_snoc exec_token)

lemma run_timer_needs_token:
  "running (timer q) \<longrightarrow> shutdown_indicator q \<Longrightarrow>
   running (timer (run irt ops q)) \<longrightarrow> shutdown_indicator (run irt ops q)"
proof (induction ops rule: rev_induct)
  case Nil
  then show ?case by (simp add: run_Nil)
next
  case (snoc op ops)
  then show ?case
    by (auto simp: run_snoc exec_running exec_token starts_timer_def stops_timer_def
        split: operation.splits)
qed

lemma run_keeps_empty:
  "entries q = [] \<Longrightarrow> \<forall>op \<in> set ops. \<not> is_push op \<Longrightarrow> entries (run irt ops q) = []"
  by (induction ops rule: rev_induct) (simp_all add: run_Nil run_snoc exec_keeps_empty)

lemma shutdown_again:
  assumes "entries q = []" and "\<not> shutdown_indicator q" and "\<not> running (timer q)"
  shows "shutdown q = q\<lparr>trace := trace q @ [Token_reset, Timer_stop]\<rparr>"
proof -
  have "timer_stop (timer q) = timer q"
    using assms(3) by (simp add: timer_stop_def)
  then show ?thesis using assms(1,2) by (simp add: shutdown_eq)
qed

lemma apply_ack_entries:
  "entries (apply_ack index q) = erase index (entries q)"
proof (cases "find_entry (entries q) index")
  case None
  then have "index \<notin> fst ` set (entries q)"
    by (simp add: find_entry_def map_of_eq_None_iff)
  then have "erase index (entries q) = entries q"
    by (auto simp: erase_def filter_id_conv)
  with None show ?thesis by (simp add: apply_ack_def)
next
  case (Some entry)
  then show ?thesis by (simp add: apply_ack_present split: list.splits)
qed

lemma exec_ordered:
  assumes "ordered_keys (entries q)"
  shows "ordered_keys (entries (exec irt op q))"
proof (cases op)
  case (Push index bsize stp hnd)
  show ?thesis
  proof (cases "find_entry (entries q) index")
    case None
    with assms Push show ?thesis
      by (simp add: push_fresh ordered_place) (simp add: ordered_keys_def)
  next
    case (Some old)
    with assms Push show ?thesis
      by (simp add: push_def map_insert_def post_def emit_def)
  qed
next
  case (Apply_ack index)
  with assms show ?thesis by (simp add: apply_ack_entries ordered_erase)
next
  case Shutdown
  then show ?thesis by (simp add: shutdown_eq ordered_keys_def)
qed (use assms in \<open>simp_all add: step_done_fields timer_tick_fields ios_run_fields\<close>)

lemma run_ordered: "ordered_keys (entries (run irt ops new_queue))"
proof (induction ops rule: rev_induct)
  case Nil
  show ?case by (simp add: run_Nil new_queue_def ordered_keys_def)
next
  case (snoc op ops)
  then show ?case by (simp add: run_snoc exec_ordered)
qed


lemma ios_drain:
  "run irt (replicate (length (ios q)) Ios_run) q =
     q\<lparr>ios := [], trace := trace q @ map task_call (ios q)\<rparr>"
proof (induction "ios q" arbitrary: q)
  case Nil
  then show ?case by (simp add: run_Nil)
next
  case (Cons t ts)
  obtain h err n where t: "t = Handler_task h err n" by (cases t)
  let ?q' = "ios_run q"
  from Cons.hyps(2) have q': "?q' = q\<lparr>ios := ts, trace := trace q @ [task_call t]\<rparr>"
    by (simp add: ios_run_def invoke_handler_def emit_def task_call_def t
        flip: Cons.hyps(2))
  then have "ts = ios ?q'" by simp
  from Cons.hyps(1) [OF this]
  have "run irt (replicate (length (ios ?q')) Ios_run) ?q' =
          ?q'\<lparr>ios := [], trace := trace ?q' @ map task_call (ios ?q')\<rparr>" .
  then show ?case
    by (simp add: q' run_Cons flip: Cons.hyps(2))
qed

subsection \<open>A step that reports an error\<close>

text \<open>
  Claim C2. When the continuation of a step is called with an error, the handler of its
  entry is called at once with that error and byte count, and nothing else happens: the
  entry stays in the table, the head is the same, the timer is neither set nor started.
  (The equation holds whether or not the token is still valid.)
\<close>

theorem step_error_finalizes:
  assumes "k < length (pending q)" and "error \<noteq> success"
  shows "step_done k error bytes q =
           q\<lparr>pending := take k (pending q) @ drop (Suc k) (pending q),
             trace := trace q @
               [Handler_invoked (handler (captured_entry (pending q ! k))) error bytes]\<rparr> \<and>
         entries (step_done k error bytes q) = entries q \<and>
         timer (step_done k error bytes q) = timer q \<and>
         shutdown_indicator (step_done k error bytes q) = shutdown_indicator q"
  using assms by (simp add: step_done_def continuation_body_def invoke_handler_def emit_def)

theorem step_error_finalizes_witness:
  "(0::nat) < length (pending (run 5 [Push (1::nat) 100 7 8, Push 2 200 9 10] new_queue)) \<and>
   transport_error 3 \<noteq> success \<and>
   entries (step_done 0 (transport_error 3) 40
             (run 5 [Push (1::nat) 100 7 8, Push 2 200 9 10] new_queue))
     = [(1, \<lparr>buffer_size = 100, period = 5, step = 7, handler = 8\<rparr>),
        (2, \<lparr>buffer_size = 200, period = 5, step = 9, handler = 10\<rparr>)] \<and>
   timer (step_done 0 (transport_error 3) 40
             (run 5 [Push (1::nat) 100 7 8, Push 2 200 9 10] new_queue))
     = \<lparr>running = False, timer_period = 0\<rparr> \<and>
   trace (step_done 0 (transport_error 3) 40
             (run 5 [Push (1::nat) 100 7 8, Push 2 200 9 10] new_queue))
     = [Step_invoked 7, Handler_invoked 8 (transport_error 3) 40]"
proof -
  let ?q = "run 5 [Push (1::nat) 100 7 8, Push 2 200 9 10] new_queue"
  have k: "(0::nat) < length (pending ?q)" by code_simp
  have err: "transport_error 3 \<noteq> success" by simp
  have e: "entries ?q = [(1, \<lparr>buffer_size = 100, period = 5, step = 7, handler = 8\<rparr>),
        (2, \<lparr>buffer_size = 200, period = 5, step = 9, handler = 10\<rparr>)]"
    by code_simp
  have t: "timer ?q = \<lparr>running = False, timer_period = 0\<rparr>" by code_simp
  have tr: "trace ?q = [Step_invoked 7]" by code_simp
  have p: "pending ?q ! 0 =
    \<lparr>captured_entry = \<lparr>buffer_size = 100, period = 5, step = 7, handler = 8\<rparr>,
      guard_bound = True\<rparr>"
    by code_simp
  show ?thesis
    using k err e t tr p step_error_finalizes [OF k err, of 40] by simp
qed

subsection \<open>push of an index that is already in the table\<close>

text \<open>
  Claim C3. When the index is already in the table, push changes neither the table nor
  the timer, the token or the pending continuations; it calls neither the new step nor,
  inline, the new handler; it posts one closure to the io_service, which calls the new
  handler with \<open>already_started\<close> and size 0.
\<close>

theorem push_duplicate_rejected:
  "find_entry (entries q) index = Some old \<Longrightarrow>
   push irt index bsize stp hnd q =
     q\<lparr>ios := ios q @ [Handler_task hnd already_started 0],
       trace := trace q @ [Posted (Handler_task hnd already_started 0)]\<rparr>"
  by (simp add: push_def map_insert_def post_def emit_def)

theorem push_duplicate_rejected_witness:
  "find_entry (entries (run 5 [Push (1::nat) 100 7 8, Push 2 200 9 10] new_queue)) 1
     = Some \<lparr>buffer_size = 100, period = 5, step = 7, handler = 8\<rparr> \<and>
   entries (push 5 1 50 11 12 (run 5 [Push (1::nat) 100 7 8, Push 2 200 9 10] new_queue))
     = [(1, \<lparr>buffer_size = 100, period = 5, step = 7, handler = 8\<rparr>),
        (2, \<lparr>buffer_size = 200, period = 5, step = 9, handler = 10\<rparr>)] \<and>
   ios (push 5 1 50 11 12 (run 5 [Push (1::nat) 100 7 8, Push 2 200 9 10] new_queue))
     = [Handler_task 12 already_started 0] \<and>
   trace (push 5 1 50 11 12 (run 5 [Push (1::nat) 100 7 8, Push 2 200 9 10] new_queue))
     = [Step_invoked 7, Posted (Handler_task 12 already_started 0)]"
proof -
  let ?q = "run 5 [Push (1::nat) 100 7 8, Push 2 200 9 10] new_queue"
  have present: "find_entry (entries ?q) 1
     = Some \<lparr>buffer_size = 100, period = 5, step = 7, handler = 8\<rparr>"
    by code_simp
  have e: "entries ?q = [(1, \<lparr>buffer_size = 100, period = 5, step = 7, handler = 8\<rparr>),
        (2, \<lparr>buffer_size = 200, period = 5, step = 9, handler = 10\<rparr>)]"
    by code_simp
  have i: "ios ?q = []" by code_simp
  have t: "trace ?q = [Step_invoked 7]" by code_simp
  show ?thesis
    using present e i t push_duplicate_rejected [OF present, of 5 50 11 12] by simp
qed

subsection \<open>apply_ack\<close>

text \<open>
  Claim C4. For an index in the table (whose keys are in ascending order, as in a
  \<open>std::map\<close>), apply_ack erases the entry. When the index was the least one, the timer
  is stopped and, if an entry remains, the step of the first remaining entry (the least
  remaining index, since the keys stay ordered) is called. The handler of the erased
  entry is called last, with \<open>success\<close> and the entry's \<open>buffer_size\<close>. When the index
  was not the least one, the timer is left alone and only the handler is called.
\<close>

theorem apply_ack_present_order:
  assumes "ordered_keys (entries q)" and "find_entry (entries q) index = Some entry"
  shows "entries (apply_ack index q) = erase index (entries q) \<and>
         find_entry (entries (apply_ack index q)) index = None \<and>
         ordered_keys (entries (apply_ack index q)) \<and>
         ios (apply_ack index q) = ios q \<and>
         (if \<forall>j \<in> fst ` set (entries q). index \<le> j
          then timer (apply_ack index q) = timer_stop (timer q) \<and>
               trace (apply_ack index q) =
                 trace q @ [Timer_stop] @
                 (case erase index (entries q) of [] \<Rightarrow> []
                  | new_head # rest \<Rightarrow> [Step_invoked (step (snd new_head))]) @
                 [Handler_invoked (handler entry) success (buffer_size entry)]
          else timer (apply_ack index q) = timer q \<and>
               trace (apply_ack index q) =
                 trace q @ [Handler_invoked (handler entry) success (buffer_size entry)])"
proof -
  note eq = apply_ack_present [OF assms(2)]
  have least: "is_begin index (entries q) \<longleftrightarrow> (\<forall>j \<in> fst ` set (entries q). index \<le> j)"
    using assms by (rule is_begin_least)
  have E: "entries (apply_ack index q) = erase index (entries q)"
    by (simp add: eq split: list.splits)
  have I: "ios (apply_ack index q) = ios q"
    by (simp add: eq split: list.splits)
  have F: "find_entry (entries (apply_ack index q)) index = None"
    by (simp only: E find_erase_same)
  have K: "ordered_keys (entries (apply_ack index q))"
    using assms(1) by (simp only: E ordered_erase)
  have T: "if \<forall>j \<in> fst ` set (entries q). index \<le> j
          then timer (apply_ack index q) = timer_stop (timer q) \<and>
               trace (apply_ack index q) =
                 trace q @ [Timer_stop] @
                 (case erase index (entries q) of [] \<Rightarrow> []
                  | new_head # rest \<Rightarrow> [Step_invoked (step (snd new_head))]) @
                 [Handler_invoked (handler entry) success (buffer_size entry)]
          else timer (apply_ack index q) = timer q \<and>
               trace (apply_ack index q) =
                 trace q @ [Handler_invoked (handler entry) success (buffer_size entry)]"
  proof (cases "is_begin index (entries q)")
    case True
    then have "\<forall>j \<in> fst ` set (entries q). index \<le> j" using least by simp
    then show ?thesis using True by (simp add: eq split: list.splits)
  next
    case False
    then have "\<not> (\<forall>j \<in> fst ` set (entries q). index \<le> j)" using least by simp
    then show ?thesis using False by (simp add: eq)
  qed
  from E F K I T show ?thesis by (intro conjI)
qed

theorem apply_ack_present_order_witness:
  "ordered_keys (entries (run 5 [Push (1::nat) 100 7 8, Step_done 0 success 100,
                                 Push 2 200 9 10] new_queue)) \<and>
   find_entry (entries (run 5 [Push (1::nat) 100 7 8, Step_done 0 success 100,
                               Push 2 200 9 10] new_queue)) 1
     = Some \<lparr>buffer_size = 100, period = 5, step = 7, handler = 8\<rparr> \<and>
   entries (apply_ack 1 (run 5 [Push (1::nat) 100 7 8, Step_done 0 success 100,
                                Push 2 200 9 10] new_queue))
     = [(2, \<lparr>buffer_size = 200, period = 5, step = 9, handler = 10\<rparr>)] \<and>
   timer (apply_ack 1 (run 5 [Push (1::nat) 100 7 8, Step_done 0 success 100,
                              Push 2 200 9 10] new_queue))
     = \<lparr>running = False, timer_period = 5\<rparr> \<and>
   trace (apply_ack 1 (run 5 [Push (1::nat) 100 7 8, Step_done 0 success 100,
                              Push 2 200 9 10] new_queue))
     = [Step_invoked 7, Timer_set_period 5, Timer_start,
        Timer_stop, Step_invoked 9, Handler_invoked 8 success 100]"
proof -
  let ?q = "run 5 [Push (1::nat) 100 7 8, Step_done 0 success 100, Push 2 200 9 10] new_queue"
  have ord: "ordered_keys (entries ?q)" by code_simp
  have present: "find_entry (entries ?q) 1
     = Some \<lparr>buffer_size = 100, period = 5, step = 7, handler = 8\<rparr>"
    by code_simp
  have e: "entries ?q = [(1, \<lparr>buffer_size = 100, period = 5, step = 7, handler = 8\<rparr>),
        (2, \<lparr>buffer_size = 200, period = 5, step = 9, handler = 10\<rparr>)]"
    by code_simp
  have t: "timer ?q = \<lparr>running = True, timer_period = 5\<rparr>" by code_simp
  have tr: "trace ?q = [Step_invoked 7, Timer_set_period 5, Timer_start]" by code_simp
  show ?thesis
    using ord present e t tr apply_ack_present_order [OF ord present]
    by (simp add: erase_def timer_stop_def)
qed

text \<open>
  Claim C5. For an index that is not in the table, apply_ack returns the queue as it
  was: same table, timer, token, posted closures and pending continuations, and nothing
  added to the trace, so no handler and no step was called.
\<close>

theorem apply_ack_absent_noop:
  "find_entry (entries q) index = None \<Longrightarrow> apply_ack index q = q"
  by (simp add: apply_ack_def)

theorem apply_ack_absent_noop_witness:
  "find_entry (entries (run 5 [Push (1::nat) 100 7 8] new_queue)) 2 = None \<and>
   apply_ack 2 (run 5 [Push (1::nat) 100 7 8] new_queue) = run 5 [Push 1 100 7 8] new_queue"
proof -
  have absent: "find_entry (entries (run 5 [Push (1::nat) 100 7 8] new_queue)) 2 = None"
    by code_simp
  show ?thesis using absent apply_ack_absent_noop [OF absent] by simp
qed

subsection \<open>shutdown\<close>

text \<open>
  Claim C6. After shutdown the table is empty (\<open>size()\<close> is 0). The calls shutdown makes
  are, in this order: the reset of the token, the stop of the timer, and one post per
  entry that was in the table, in the order of the table; each posted closure calls the
  handler of its entry with \<open>operation_aborted\<close> and the entry's \<open>buffer_size\<close>. No
  handler is called by shutdown itself, and the list of posted closures has one element
  for each entry of the table, position by position. Once the io_service has run the
  closures posted before and those of shutdown, each of these handlers has been called
  once, with the cancellation.
\<close>

theorem shutdown_cancels_all:
  "size_q (shutdown q) = 0 \<and>
   shutdown_indicator (shutdown q) = False \<and>
   timer (shutdown q) = timer_stop (timer q) \<and>
   ios (shutdown q) =
     ios q @ map (\<lambda>p. Handler_task (handler (snd p)) operation_aborted (buffer_size (snd p)))
               (entries q) \<and>
   trace (shutdown q) =
     trace q @ [Token_reset, Timer_stop] @
       map (\<lambda>p. Posted (Handler_task (handler (snd p)) operation_aborted (buffer_size (snd p))))
         (entries q) \<and>
   pending (shutdown q) = pending q \<and>
   trace (run irt (replicate (length (ios q) + length (entries q)) Ios_run) (shutdown q)) =
     trace (shutdown q) @ map task_call (ios q) @
       map (\<lambda>p. Handler_invoked (handler (snd p)) operation_aborted (buffer_size (snd p)))
         (entries q)"
proof -
  have len: "length (ios q) + length (entries q) = length (ios (shutdown q))"
    by (simp add: shutdown_eq)
  have "trace (run irt (replicate (length (ios (shutdown q))) Ios_run) (shutdown q)) =
          trace (shutdown q) @ map task_call (ios (shutdown q))"
    by (simp add: ios_drain)
  then have drained:
    "trace (run irt (replicate (length (ios q) + length (entries q)) Ios_run) (shutdown q)) =
     trace (shutdown q) @ map task_call (ios q) @
       map (\<lambda>p. Handler_invoked (handler (snd p)) operation_aborted (buffer_size (snd p)))
         (entries q)"
    unfolding len by (simp add: shutdown_eq task_call_def comp_def)
  show ?thesis
    using drained by (simp add: shutdown_eq size_q_def)
qed

text \<open>
  Claim C10. A second shutdown, after any operations other than push, changes neither
  the table (empty, \<open>size()\<close> 0), nor the timer (stopped), the token (reset), the posted
  closures or the pending continuations. It calls no handler and posts nothing: the
  only calls it makes are the reset of the token that is already reset and the stop of
  the timer that is already stopped.
\<close>

theorem shutdown_twice_noop:
  assumes "\<forall>op \<in> set ops. \<not> is_push op"
  shows "shutdown (run irt ops (shutdown q)) =
           (run irt ops (shutdown q))
             \<lparr>trace := trace (run irt ops (shutdown q)) @ [Token_reset, Timer_stop]\<rparr> \<and>
         size_q (shutdown (run irt ops (shutdown q))) = 0"
proof -
  let ?q' = "run irt ops (shutdown q)"
  have tok: "\<not> shutdown_indicator (shutdown q)" and tim: "\<not> running (timer (shutdown q))"
    and emp: "entries (shutdown q) = []"
    by (simp_all add: shutdown_eq timer_stop_def)
  have T: "\<not> shutdown_indicator ?q'"
    using tok by (rule run_token_stays_reset)
  have "running (timer ?q') \<longrightarrow> shutdown_indicator ?q'"
    by (rule run_timer_needs_token) (simp add: tim)
  with T have R: "\<not> running (timer ?q')" by simp
  have E: "entries ?q' = []"
    using emp assms by (rule run_keeps_empty)
  have "shutdown ?q' = ?q'\<lparr>trace := trace ?q' @ [Token_reset, Timer_stop]\<rparr>"
    using E T R by (rule shutdown_again)
  then show ?thesis by (simp add: size_q_def E)
qed

theorem shutdown_twice_noop_witness:
  "list_all (\<lambda>op. \<not> is_push op) [Ios_run, Apply_ack (1::nat)] \<and>
   shutdown (run 5 [Ios_run, Apply_ack 1] (shutdown (run 5 [Push (1::nat) 100 7 8] new_queue))) =
     \<lparr>entries = [], timer = \<lparr>running = False, timer_period = 0\<rparr>, shutdown_indicator = False,
      ios = [],
      pending = [\<lparr>captured_entry = \<lparr>buffer_size = 100, period = 5, step = 7, handler = 8\<rparr>,
                  guard_bound = True\<rparr>],
      trace = [Step_invoked 7, Token_reset, Timer_stop,
               Posted (Handler_task 8 operation_aborted 100),
               Handler_invoked 8 operation_aborted 100, Token_reset, Timer_stop]\<rparr>"
proof -
  have h: "\<forall>op \<in> set [Ios_run, Apply_ack (1::nat)]. \<not> is_push op" by simp
  have v: "run 5 [Ios_run, Apply_ack 1] (shutdown (run 5 [Push (1::nat) 100 7 8] new_queue)) =
     \<lparr>entries = [], timer = \<lparr>running = False, timer_period = 0\<rparr>, shutdown_indicator = False,
      ios = [],
      pending = [\<lparr>captured_entry = \<lparr>buffer_size = 100, period = 5, step = 7, handler = 8\<rparr>,
                  guard_bound = True\<rparr>],
      trace = [Step_invoked 7, Token_reset, Timer_stop,
               Posted (Handler_task 8 operation_aborted 100),
               Handler_invoked 8 operation_aborted 100]\<rparr>"
    by code_simp
  from h shutdown_twice_noop [OF h, of 5 "run 5 [Push (1::nat) 100 7 8] new_queue"]
  show ?thesis
    unfolding v by simp
qed

text \<open>
  Claim C9, as stated, fails: nothing in push looks at the token, so a push after
  shutdown finds the table empty, inserts its entry and calls its step.
\<close>

theorem push_after_shutdown_inserts:
  "size_q (run 5 [Push (1::nat) 100 7 8, Shutdown] new_queue) = 0 \<and>
   entries (run 5 [Push (1::nat) 100 7 8, Shutdown, Push 1 50 9 10] new_queue) =
     [(1, \<lparr>buffer_size = 50, period = 5, step = 9, handler = 10\<rparr>)]"
  by code_simp

text \<open>
  Claim C9, amended. After shutdown the token stays reset and the timer stays stopped
  under every later sequence of operations, and the table stays empty as long as no
  push is called. A push after shutdown inserts its entry into the empty table and calls
  its step, with a continuation whose guard is not bound.
\<close>

theorem shutdown_terminal_until_push:
  "shutdown_indicator (run irt ops (shutdown q)) = False \<and>
   running (timer (run irt ops (shutdown q))) = False \<and>
   ((\<forall>op \<in> set ops. \<not> is_push op) \<longrightarrow> entries (run irt ops (shutdown q)) = []) \<and>
   push irt index bsize stp hnd (shutdown q) =
     (shutdown q)
       \<lparr>entries := [(index, \<lparr>buffer_size = bsize, period = irt, step = stp, handler = hnd\<rparr>)],
        pending := pending q @
          [\<lparr>captured_entry = \<lparr>buffer_size = bsize, period = irt, step = stp, handler = hnd\<rparr>,
            guard_bound = False\<rparr>],
        trace := trace (shutdown q) @ [Step_invoked stp]\<rparr>"
proof -
  have tok: "\<not> shutdown_indicator (shutdown q)" and tim: "\<not> running (timer (shutdown q))"
    and emp: "entries (shutdown q) = []"
    by (simp_all add: shutdown_eq timer_stop_def)
  have T: "shutdown_indicator (run irt ops (shutdown q)) = False"
    using run_token_stays_reset [OF tok] by simp
  have "running (timer (run irt ops (shutdown q))) \<longrightarrow> shutdown_indicator (run irt ops (shutdown q))"
    by (rule run_timer_needs_token) (simp add: tim)
  with T have R: "running (timer (run irt ops (shutdown q))) = False" by simp
  have E: "(\<forall>op \<in> set ops. \<not> is_push op) \<longrightarrow> entries (run irt ops (shutdown q)) = []"
    using run_keeps_empty [OF emp] by blast
  have none: "find_entry (entries (shutdown q)) index = None"
    by (simp add: emp find_entry_def)
  have P: "push irt index bsize stp hnd (shutdown q) =
     (shutdown q)
       \<lparr>entries := [(index, \<lparr>buffer_size = bsize, period = irt, step = stp, handler = hnd\<rparr>)],
        pending := pending q @
          [\<lparr>captured_entry = \<lparr>buffer_size = bsize, period = irt, step = stp, handler = hnd\<rparr>,
            guard_bound = False\<rparr>],
        trace := trace (shutdown q) @ [Step_invoked stp]\<rparr>"
    using emp tok by (simp add: push_fresh [OF none]) (simp add: shutdown_eq)
  from T R E P show ?thesis by (intro conjI)
qed

theorem shutdown_terminal_until_push_witness:
  "list_all (\<lambda>op. \<not> is_push op)
     [Apply_ack (1::nat), Step_done 0 operation_aborted 0, Timer_tick, Ios_run] \<and>
   entries (run 5 [Apply_ack 1, Step_done 0 operation_aborted 0, Timer_tick, Ios_run]
             (shutdown (run 5 [Push (1::nat) 100 7 8] new_queue))) = []"
proof -
  have h: "\<forall>op \<in> set [Apply_ack (1::nat), Step_done 0 operation_aborted 0, Timer_tick, Ios_run].
      \<not> is_push op" by simp
  show ?thesis
    using h shutdown_terminal_until_push
      [of 5 "[Apply_ack (1::nat), Step_done 0 operation_aborted 0, Timer_tick, Ios_run]"
          "run 5 [Push (1::nat) 100 7 8] new_queue"]
    by simp
qed

subsection \<open>push of a new index\<close>




subsection \<open>The timer\<close>

text \<open>
  Claim C8, as stated, fails: after push(1), apply_ack(1) and the call of the step's
  continuation without error, the timer is running, the token is valid and the table
  is empty.
\<close>

theorem timer_runs_on_empty_table:
  "running (timer (run 5 [Push (1::nat) 100 7 8, Apply_ack 1, Step_done 0 success 100] new_queue)) \<and>
   entries (run 5 [Push (1::nat) 100 7 8, Apply_ack 1, Step_done 0 success 100] new_queue) = [] \<and>
   shutdown_indicator (run 5 [Push (1::nat) 100 7 8, Apply_ack 1, Step_done 0 success 100] new_queue)"
  by code_simp

text \<open>
  Claim C8, amended. In every state reached from a new queue, the timer runs only if
  shutdown has not occurred. The timer is switched on exactly by a continuation called
  without error while its guard locks (whatever the table holds then), and switched
  off exactly by apply_ack of the first entry of the table and by shutdown.
\<close>

theorem timer_needs_valid_token:
  "(running (timer (run irt ops new_queue)) \<longrightarrow> shutdown_indicator (run irt ops new_queue)) \<and>
   running (timer (exec irt op q)) =
     (starts_timer op q \<or> running (timer q) \<and> \<not> stops_timer op q)"
proof -
  have "running (timer (run irt ops new_queue)) \<longrightarrow> shutdown_indicator (run irt ops new_queue)"
    by (rule run_timer_needs_token) (simp add: new_queue_def)
  then show ?thesis by (simp only: exec_running simp_thms)
qed

theorem timer_needs_valid_token_witness:
  "running (timer (run 5 [Push (1::nat) 100 7 8, Step_done 0 success 100] new_queue)) \<and>
   shutdown_indicator (run 5 [Push (1::nat) 100 7 8, Step_done 0 success 100] new_queue) \<and>
   stops_timer (Apply_ack 1) (run 5 [Push (1::nat) 100 7 8, Step_done 0 success 100] new_queue) \<and>
   \<not> running (timer (exec 5 (Apply_ack 1)
                  (run 5 [Push (1::nat) 100 7 8, Step_done 0 success 100] new_queue)))"
proof -
  let ?ops = "[Push (1::nat) 100 7 8, Step_done 0 success 100]"
  have r: "running (timer (run 5 ?ops new_queue))" by code_simp
  have s: "stops_timer (Apply_ack 1) (run 5 ?ops new_queue)" by code_simp
  have n: "\<not> starts_timer (Apply_ack 1) (run 5 ?ops new_queue)" by (simp add: starts_timer_def)
  show ?thesis
    using r s n timer_needs_valid_token [of 5 ?ops "Apply_ack 1" "run 5 ?ops new_queue"]
    by simp
qed

subsection \<open>How often a handler is called\<close>

text \<open>
  Claim C1. The handler of an entry can be called twice. After a step reports an error
  the handler is called and the entry stays in the table, so apply_ack calls the same
  handler again. After shutdown has posted the cancellation, a continuation that is
  called finds the token reset and calls the handler too.
\<close>

theorem handler_completed_twice:
  "invocations 8 (trace (run 5 [Push (1::nat) 100 7 8, Step_done 0 (transport_error 3) 0,
                                Apply_ack 1] new_queue)) = 2 \<and>
   invocations 8 (trace (run 5 [Push (1::nat) 100 7 8, Shutdown, Ios_run,
                                Step_done 0 operation_aborted 0] new_queue)) = 2"
  by code_simp

end
